theory Spec2Isabelle
  imports Main
begin

section \<open>The LRU cache of package lru (lru.go)\<close>

text \<open>
  The Go program keeps a \<^verbatim>\<open>*list.List\<close> of elements and a map from keys to
  \<^verbatim>\<open>*list.Element\<close>. Both refer to the same heap objects, and the program
  writes through these pointers (\<^verbatim>\<open>ee.Value.(*entry).value = value\<close>), so the
  model keeps the aliasing: an element is an address, the recency sequence is the list
  of the addresses linked into \<^verbatim>\<open>c.Ll\<close> (front first), the index maps keys to
  addresses, and a store gives the entry that the \<^verbatim>\<open>Value\<close> field of each element
  points to.

  Package \<^verbatim>\<open>container/list\<close> belongs to the Go standard library, not to this
  program. Its operations are modelled by what they do to the sequence of linked
  elements; the sentinel and the next/prev pointers that implement them are not modelled.
\<close>

subsection \<open>Data\<close>

type_synonym addr = nat

text \<open>
  \<^verbatim>\<open>type Key interface{}\<close>: "A Key may be any value that is comparable." Go compares
  keys with \<^verbatim>\<open>==\<close>, and \<^verbatim>\<open>==\<close> is not reflexive: a floating-point NaN, and an array
  or struct that holds one, is a comparable value that is equal to no value, itself
  included. \<open>Val x\<close> is a key that is equal to itself, and \<open>Val x\<close> is equal to
  \<open>Val y\<close> exactly when \<open>x = y\<close>. \<open>NaN x\<close> is a key that is equal to no key; x tells
  such keys apart for the callbacks and visitors that receive them.
\<close>

datatype 'k Key = Val 'k | NaN 'k

text \<open>\<open>self_equal k\<close> is the Go expression \<^verbatim>\<open>k == k\<close>.\<close>

fun self_equal :: "'k Key \<Rightarrow> bool" where
  "self_equal (Val x) = True"
| "self_equal (NaN x) = False"

text \<open>\<open>key_eq k k'\<close> is the Go expression \<^verbatim>\<open>k == k'\<close>.\<close>

definition key_eq :: "'k Key \<Rightarrow> 'k Key \<Rightarrow> bool" where
  "key_eq k k' \<longleftrightarrow> self_equal k \<and> k = k'"

text \<open>
  \<^verbatim>\<open>type entry struct { key Key; value interface{} }\<close>. The field \<^verbatim>\<open>value\<close>
  is \<open>val\<close> here, since \<open>value\<close> is a command of Isabelle.
\<close>

record ('k, 'v) entry =
  key :: "'k Key"
  val :: 'v

text \<open>
  The four fields of \<^verbatim>\<open>type Cache struct\<close>, followed by the part of the Go heap
  and of the surrounding program that the methods touch:
  \<^item> \<open>MaxEntries\<close>: a Go \<^verbatim>\<open>int\<close>; the program only compares it.
  \<^item> \<open>OnEvicted\<close>: \<open>None\<close> is the nil func. A callback is a Go closure; what it does is
    a change of the state \<open>'w\<close> of the surrounding program. It cannot reach the cache
    itself (the program documents the cache as not reentrant).
  \<^item> \<open>Ll\<close>: the elements linked into the list, front (most recently used) first. A nil
    \<^verbatim>\<open>c.Ll\<close> is the empty list here: \<^verbatim>\<open>New\<close> and \<^verbatim>\<open>Add\<close> set list and map
    together, and every method returns before it reads \<^verbatim>\<open>c.Ll\<close> when the map is nil.
    A cache with a map and a nil list arises only from an assignment to the exported
    field and is not modelled.
  \<^item> \<open>Cache\<close> and \<open>unreachable\<close> together are the Go map \<^verbatim>\<open>c.Cache\<close>; \<open>None\<close> is
    the nil map. Go finds, overwrites and deletes an entry of a map through a key that is
    equal to the key of the entry. \<open>Cache\<close> holds the entries whose key is equal to
    itself, as a function of the key. \<open>unreachable\<close> lists the entries whose key is not
    equal to itself, in the order they were stored: no lookup finds them, no store
    overwrites them and no delete removes them.
  \<^item> \<open>elems\<close>: for each element address, the entry its \<^verbatim>\<open>Value\<close> points to. An
    element keeps its entry after it is unlinked.
  \<^item> \<open>nxt\<close>: the address the next allocated element gets.
  \<^item> \<open>world\<close>: the state the callbacks and visitors act on.
\<close>

record ('k, 'v, 'w) Cache =
  MaxEntries :: int
  OnEvicted :: "('k Key \<Rightarrow> 'v \<Rightarrow> 'w \<Rightarrow> 'w) option"
  Ll :: "addr list"
  Cache :: "('k Key \<rightharpoonup> addr) option"
  unreachable :: "('k Key \<times> addr) list"
  elems :: "addr \<Rightarrow> ('k, 'v) entry"
  nxt :: addr
  world :: 'w

subsection \<open>The operations on the map\<close>

text \<open>
  \<^verbatim>\<open>ele, ok := c.Cache[key]\<close> on the entries whose key is equal to itself: a key that
  is not equal to itself is never found.
\<close>

definition lookup :: "('k Key \<rightharpoonup> addr) \<Rightarrow> 'k Key \<Rightarrow> addr option" where
  "lookup m k = (if self_equal k then m k else None)"

text \<open>\<^verbatim>\<open>delete(c.Cache, key)\<close>: a key that is not equal to itself deletes nothing.\<close>

definition delete :: "('k Key \<rightharpoonup> addr) \<Rightarrow> 'k Key \<Rightarrow> ('k Key \<rightharpoonup> addr)" where
  "delete m k = (if self_equal k then m(k := None) else m)"

subsection \<open>The operations of container/list that the program calls\<close>

text \<open>
  \<^verbatim>\<open>l.MoveToFront(e)\<close>: "If e is not an element of l, the list is not modified."
\<close>

definition MoveToFront :: "addr list \<Rightarrow> addr \<Rightarrow> addr list" where
  "MoveToFront l e = (if e \<in> set l then e # remove1 e l else l)"

text \<open>\<^verbatim>\<open>l.Remove(e)\<close> unlinks e if it is an element of l.\<close>

definition Remove_list :: "addr list \<Rightarrow> addr \<Rightarrow> addr list" where
  "Remove_list l e = remove1 e l"

text \<open>\<^verbatim>\<open>l.Back()\<close>: the last element, or nil if the list is empty.\<close>

definition Back :: "addr list \<Rightarrow> addr option" where
  "Back l = (if l = [] then None else Some (last l))"

text \<open>
  \<^verbatim>\<open>e.Prev()\<close>: the element linked before e (towards the front), or nil when e is the
  front element or is not linked into a list.
\<close>

definition Prev :: "addr list \<Rightarrow> addr \<Rightarrow> addr option" where
  "Prev l e =
     (let before = takeWhile (\<lambda>x. x \<noteq> e) l
      in if e \<in> set l \<and> before \<noteq> [] then Some (last before) else None)"

subsection \<open>The methods of Cache\<close>

text \<open>
  \<^verbatim>\<open>New(maxEntries)\<close>. The store, the allocation pointer and the world are those of
  the program that calls it.
\<close>

definition New :: "int \<Rightarrow> (addr \<Rightarrow> ('k, 'v) entry) \<Rightarrow> addr \<Rightarrow> 'w \<Rightarrow> ('k, 'v, 'w) Cache" where
  "New maxEntries h n w =
     \<lparr>MaxEntries = maxEntries, OnEvicted = None, Ll = [], Cache = Some Map.empty,
      unreachable = [], elems = h, nxt = n, world = w\<rparr>"

text \<open>\<^verbatim>\<open>func (c *Cache) removeElement(e *list.Element)\<close>\<close>

definition removeElement :: "('k, 'v, 'w) Cache \<Rightarrow> addr \<Rightarrow> ('k, 'v, 'w) Cache" where
  "removeElement c e =
     (let c1 = c\<lparr>Ll := Remove_list (Ll c) e\<rparr>;
          kv = elems c1 e;
          c2 = c1\<lparr>Cache := map_option (\<lambda>m. delete m (key kv)) (Cache c1)\<rparr>
      in case OnEvicted c2 of
           None \<Rightarrow> c2
         | Some f \<Rightarrow> c2\<lparr>world := f (key kv) (val kv) (world c2)\<rparr>)"

text \<open>
  \<^verbatim>\<open>func (c *Cache) RemoveOldest() Key\<close>; the result \<open>None\<close> is the nil key.
\<close>

definition RemoveOldest :: "('k, 'v, 'w) Cache \<Rightarrow> 'k Key option \<times> ('k, 'v, 'w) Cache" where
  "RemoveOldest c =
     (if Cache c = None then (None, c)
      else case Back (Ll c) of
             Some ele \<Rightarrow> (let c1 = removeElement c ele in (Some (key (elems c1 ele)), c1))
           | None \<Rightarrow> (None, c))"

text \<open>
  \<^verbatim>\<open>func (c *Cache) Add(key Key, value interface{})\<close>. The store
  \<^verbatim>\<open>c.Cache[key] = ele\<close> of line 55 follows a lookup that has found no entry, so it
  makes a new entry: among the entries of \<open>Cache\<close> for a key that is equal to itself, and
  among the \<open>unreachable\<close> ones otherwise.
\<close>

definition Add :: "('k, 'v, 'w) Cache \<Rightarrow> 'k Key \<Rightarrow> 'v \<Rightarrow> ('k, 'v, 'w) Cache" where
  "Add c k v =
     (let c0 = (if Cache c = None
                then c\<lparr>Cache := Some Map.empty, unreachable := [], Ll := []\<rparr> else c)
      in case Cache c0 of
           None \<Rightarrow> c0
         | Some m \<Rightarrow>
             (case lookup m k of
                Some ee \<Rightarrow>
                  c0\<lparr>Ll := MoveToFront (Ll c0) ee,
                     elems := (elems c0)(ee := (elems c0 ee)\<lparr>val := v\<rparr>)\<rparr>
              | None \<Rightarrow>
                  (let ele = nxt c0;
                       c1 = c0\<lparr>elems := (elems c0)(ele := \<lparr>key = k, val = v\<rparr>),
                               nxt := Suc ele, Ll := ele # Ll c0\<rparr>;
                       c2 = (if self_equal k then c1\<lparr>Cache := Some (m(k \<mapsto> ele))\<rparr>
                             else c1\<lparr>unreachable := unreachable c1 @ [(k, ele)]\<rparr>)
                   in if MaxEntries c2 \<noteq> 0 \<and> int (length (Ll c2)) > MaxEntries c2
                      then snd (RemoveOldest c2)
                      else c2)))"

text \<open>
  \<^verbatim>\<open>func (c *Cache) Get(key Key) (value interface{}, ok bool)\<close>; the result \<open>None\<close>
  is \<^verbatim>\<open>(nil, false)\<close> and \<open>Some v\<close> is \<^verbatim>\<open>(v, true)\<close>.
\<close>

definition Get :: "('k, 'v, 'w) Cache \<Rightarrow> 'k Key \<Rightarrow> 'v option \<times> ('k, 'v, 'w) Cache" where
  "Get c k =
     (case Cache c of
        None \<Rightarrow> (None, c)
      | Some m \<Rightarrow>
          (case lookup m k of
             Some ele \<Rightarrow> (let c1 = c\<lparr>Ll := MoveToFront (Ll c) ele\<rparr>
                          in (Some (val (elems c1 ele)), c1))
           | None \<Rightarrow> (None, c)))"

text \<open>\<^verbatim>\<open>func (c *Cache) Remove(key Key)\<close>\<close>

definition Remove :: "('k, 'v, 'w) Cache \<Rightarrow> 'k Key \<Rightarrow> ('k, 'v, 'w) Cache" where
  "Remove c k =
     (case Cache c of
        None \<Rightarrow> c
      | Some m \<Rightarrow> (case lookup m k of Some ele \<Rightarrow> removeElement c ele | None \<Rightarrow> c))"

text \<open>\<^verbatim>\<open>func (c *Cache) Len() int\<close>\<close>

definition Len :: "('k, 'v, 'w) Cache \<Rightarrow> int" where
  "Len c = (if Cache c = None then 0 else int (length (Ll c)))"

text \<open>
  The body of the loop of \<^verbatim>\<open>Foreach\<close>, entered with \<^verbatim>\<open>ele != nil\<close>. The visitor
  is a Go closure: it returns its answer and changes the world.
\<close>

function Foreach_loop ::
  "('k Key \<Rightarrow> 'v \<Rightarrow> 'w \<Rightarrow> bool \<times> 'w) \<Rightarrow> ('k, 'v, 'w) Cache \<Rightarrow> addr \<Rightarrow> ('k, 'v, 'w) Cache" where
  "Foreach_loop fn c ele =
     (let entry = elems c ele;
          r = fn (key entry) (val entry) (world c);
          ret = fst r;
          c1 = c\<lparr>world := snd r\<rparr>
      in if ret then c1
         else case Prev (Ll c1) ele of
                None \<Rightarrow> c1
              | Some p \<Rightarrow> Foreach_loop fn c1 p)"
  by pat_completeness auto

text \<open>\<^verbatim>\<open>func (c *Cache) Foreach(fn func(Key, interface{}) bool)\<close>\<close>

definition Foreach ::
  "('k, 'v, 'w) Cache \<Rightarrow> ('k Key \<Rightarrow> 'v \<Rightarrow> 'w \<Rightarrow> bool \<times> 'w) \<Rightarrow> ('k, 'v, 'w) Cache" where
  "Foreach c fn =
     (if Cache c = None then c
      else case Back (Ll c) of
             None \<Rightarrow> c
           | Some ele \<Rightarrow> Foreach_loop fn c ele)"

text \<open>
  The body of the loop of \<^verbatim>\<open>RemoveForeach\<close>, entered with \<^verbatim>\<open>ele != nil\<close>. The
  visitor returns \<^verbatim>\<open>(ret, remove)\<close> and changes the world.
\<close>

function RemoveForeach_loop ::
  "('k Key \<Rightarrow> 'v \<Rightarrow> 'w \<Rightarrow> (bool \<times> bool) \<times> 'w) \<Rightarrow> ('k, 'v, 'w) Cache \<Rightarrow> addr
     \<Rightarrow> ('k, 'v, 'w) Cache" where
  "RemoveForeach_loop fn c ele =
     (let entry = elems c ele;
          oldEle = ele;
          ele' = Prev (Ll c) ele;
          r = fn (key entry) (val entry) (world c);
          ret = fst (fst r);
          remove = snd (fst r);
          c1 = c\<lparr>world := snd r\<rparr>
      in if ret then c1
         else let c2 = (if remove then removeElement c1 oldEle else c1)
              in case ele' of
                   None \<Rightarrow> c2
                 | Some p \<Rightarrow> RemoveForeach_loop fn c2 p)"
  by pat_completeness auto

text \<open>\<^verbatim>\<open>func (c *Cache) RemoveForeach(fn func(Key, interface{}) (bool, bool))\<close>\<close>

definition RemoveForeach ::
  "('k, 'v, 'w) Cache \<Rightarrow> ('k Key \<Rightarrow> 'v \<Rightarrow> 'w \<Rightarrow> (bool \<times> bool) \<times> 'w) \<Rightarrow> ('k, 'v, 'w) Cache" where
  "RemoveForeach c fn =
     (if Cache c = None then c
      else case Back (Ll c) of
             None \<Rightarrow> c
           | Some ele \<Rightarrow> RemoveForeach_loop fn c ele)"

subsection \<open>Sequences of operations\<close>

text \<open>
  What a program can do with a cache: call its methods, and assign the exported fields
  \<^verbatim>\<open>OnEvicted\<close> and \<^verbatim>\<open>MaxEntries\<close>. The results of \<^verbatim>\<open>Get\<close>,
  \<^verbatim>\<open>RemoveOldest\<close> and \<^verbatim>\<open>Len\<close> are dropped here; only the state goes on.
\<close>

datatype ('k, 'v, 'w) op =
    OpAdd "'k Key" 'v
  | OpGet "'k Key"
  | OpRemove "'k Key"
  | OpRemoveOldest
  | OpLen
  | OpForeach "'k Key \<Rightarrow> 'v \<Rightarrow> 'w \<Rightarrow> bool \<times> 'w"
  | OpRemoveForeach "'k Key \<Rightarrow> 'v \<Rightarrow> 'w \<Rightarrow> (bool \<times> bool) \<times> 'w"
  | SetOnEvicted "('k Key \<Rightarrow> 'v \<Rightarrow> 'w \<Rightarrow> 'w) option"
  | SetMaxEntries int

fun apply_op :: "('k, 'v, 'w) op \<Rightarrow> ('k, 'v, 'w) Cache \<Rightarrow> ('k, 'v, 'w) Cache" where
  "apply_op (OpAdd k v) c = Add c k v"
| "apply_op (OpGet k) c = snd (Get c k)"
| "apply_op (OpRemove k) c = Remove c k"
| "apply_op OpRemoveOldest c = snd (RemoveOldest c)"
| "apply_op OpLen c = c"
| "apply_op (OpForeach fn) c = Foreach c fn"
| "apply_op (OpRemoveForeach fn) c = RemoveForeach c fn"
| "apply_op (SetOnEvicted f) c = c\<lparr>OnEvicted := f\<rparr>"
| "apply_op (SetMaxEntries n) c = c\<lparr>MaxEntries := n\<rparr>"

definition run :: "('k, 'v, 'w) op list \<Rightarrow> ('k, 'v, 'w) Cache \<Rightarrow> ('k, 'v, 'w) Cache" where
  "run ops c = fold apply_op ops c"

subsection \<open>Well-formed caches\<close>

text \<open>
  \<open>cache_inv\<close> is the invariant the proofs carry: the linked elements are distinct and
  allocated, the key of each of them is equal to itself and has this element as its index
  entry, and the index function refers to nothing else. It says nothing about the
  unreachable entries of the map. A cache with a nil map has no entries.

  \<open>pos l e\<close> is the number of elements in front of e in l, and \<open>pushed c k v\<close> is the
  cache after lines 54 and 55 of \<^verbatim>\<open>Add\<close>, before the capacity check.
\<close>

definition cache_inv :: "('k, 'v, 'w) Cache \<Rightarrow> bool" where
  "cache_inv c \<longleftrightarrow>
     (case Cache c of
        None \<Rightarrow> True
      | Some m \<Rightarrow>
          distinct (Ll c) \<and>
          (\<forall>a\<in>set (Ll c).
             a < nxt c \<and> self_equal (key (elems c a)) \<and> m (key (elems c a)) = Some a) \<and>
          (\<forall>k a. m k = Some a \<longrightarrow> a \<in> set (Ll c) \<and> key (elems c a) = k))"

definition pos :: "addr list \<Rightarrow> addr \<Rightarrow> nat" where
  "pos l e = length (takeWhile (\<lambda>x. x \<noteq> e) l)"

definition pushed :: "('k, 'v, 'w) Cache \<Rightarrow> 'k Key \<Rightarrow> 'v \<Rightarrow> ('k, 'v, 'w) Cache" where
  "pushed c k v =
     (let c1 = c\<lparr>elems := (elems c)(nxt c := \<lparr>key = k, val = v\<rparr>), nxt := Suc (nxt c),
                 Ll := nxt c # Ll c\<rparr>
      in if self_equal k then c1\<lparr>Cache := map_option (\<lambda>m. m(k \<mapsto> nxt c)) (Cache c)\<rparr>
         else c1\<lparr>unreachable := unreachable c @ [(k, nxt c)]\<rparr>)"

text \<open>
  The consistency of index and sequence, as the specification words it. The index is the
  whole map: its entries are the pairs of \<open>Cache\<close> and the \<open>unreachable\<close> ones, and each
  of the latter has a key of its own, since such a key is equal to no other. The size is
  the number of entries of the index; an entry resolves to a node that holds the key of
  the entry and occurs at exactly one place of the sequence; every node of the sequence has
  exactly one index entry; no two nodes of the sequence hold keys that Go finds equal.
\<close>

definition consistent :: "('k, 'v, 'w) Cache \<Rightarrow> bool" where
  "consistent c \<longleftrightarrow>
     (\<exists>m. Cache c = Some m \<and> finite (dom m) \<and>
        Len c = int (card (dom m) + length (unreachable c)) \<and>
        (\<forall>k a. m k = Some a \<or> (k, a) \<in> set (unreachable c) \<longrightarrow>
           key (elems c a) = k \<and> (\<exists>!i. i < length (Ll c) \<and> Ll c ! i = a)) \<and>
        (\<forall>i<length (Ll c). \<exists>!k. m k = Some (Ll c ! i) \<or> (k, Ll c ! i) \<in> set (unreachable c)) \<and>
        (\<forall>i j. i < j \<and> j < length (Ll c) \<longrightarrow>
           \<not> key_eq (key (elems c (Ll c ! i))) (key (elems c (Ll c ! j)))))"

text \<open>\<open>self_keyed x\<close>: the operation x stores no key that is not equal to itself.\<close>

fun self_keyed :: "('k, 'v, 'w) op \<Rightarrow> bool" where
  "self_keyed (OpAdd k v) = self_equal k"
| "self_keyed x = True"

subsection \<open>The sequence and the index of a cache\<close>

text \<open>
  \<open>nodes c\<close> is the recency sequence, \<open>indexed c\<close> the index function of a cache and
  \<open>stranded c\<close> the list of the entries of the map that no lookup reaches, all empty
  when the map is nil (every method returns before it reads \<^verbatim>\<open>c.Ll\<close> then).
  \<open>notify c e\<close> is the world after the eviction callback, if one is registered, has been
  called once with the key and the value of e. \<open>oldest_first c\<close> lists the entries from
  the least recently used to the most recently used.
\<close>

definition nodes :: "('k, 'v, 'w) Cache \<Rightarrow> addr list" where
  "nodes c = (if Cache c = None then [] else Ll c)"

definition indexed :: "('k, 'v, 'w) Cache \<Rightarrow> 'k Key \<rightharpoonup> addr" where
  "indexed c = (case Cache c of None \<Rightarrow> Map.empty | Some m \<Rightarrow> m)"

definition stranded :: "('k, 'v, 'w) Cache \<Rightarrow> ('k Key \<times> addr) list" where
  "stranded c = (if Cache c = None then [] else unreachable c)"







subsection \<open>Example caches and visitors\<close>

text \<open>
  Keys and values are natural numbers, and the world is the list of the pairs the eviction
  callback has been called with, oldest call first.
\<close>

definition log_evicted ::
  "nat Key \<Rightarrow> nat \<Rightarrow> (nat Key \<times> nat) list \<Rightarrow> (nat Key \<times> nat) list" where
  "log_evicted k v w = w @ [(k, v)]"

definition store0 :: "addr \<Rightarrow> (nat, nat) entry" where
  "store0 = (\<lambda>_. \<lparr>key = Val 0, val = 0\<rparr>)"

definition cache0 :: "int \<Rightarrow> (nat, nat, (nat Key \<times> nat) list) Cache" where
  "cache0 n = (New n store0 0 [])\<lparr>OnEvicted := Some log_evicted\<rparr>"

text \<open>\<open>cache_ab n\<close>: capacity n, after \<^verbatim>\<open>Add(1, 10); Add(2, 20)\<close>.\<close>

definition cache_ab :: "int \<Rightarrow> (nat, nat, (nat Key \<times> nat) list) Cache" where
  "cache_ab n = Add (Add (cache0 n) (Val 1) 10) (Val 2) 20"

text \<open>
  \<open>cache_abc\<close>: no capacity bound, after \<^verbatim>\<open>Add(1, 10); Add(2, 20); Add(3, 30)\<close>.
  \<open>stop_at s\<close> is a visitor that logs its calls and stops at key s,
  \<open>stop_and_remove\<close> one that answers \<^verbatim>\<open>(true, true)\<close>, and \<open>remove_below n\<close> one that never
  stops and asks to remove the keys below n.
\<close>

definition cache_abc :: "(nat, nat, (nat Key \<times> nat) list) Cache" where
  "cache_abc = Add (cache_ab 0) (Val 3) 30"


definition stop_and_remove ::
  "nat Key \<Rightarrow> nat \<Rightarrow> (nat Key \<times> nat) list \<Rightarrow> (bool \<times> bool) \<times> (nat Key \<times> nat) list" where
  "stop_and_remove k v w = ((True, True), w)"



text \<open>
  Register the callback, \<^verbatim>\<open>Add(1, 10); Add(2, 20); Get(1); Add(3, 30); Remove(7)\<close>.
\<close>

definition ops_example :: "(nat, nat, (nat Key \<times> nat) list) op list" where
  "ops_example =
     [SetOnEvicted (Some log_evicted), OpAdd (Val 1) 10, OpAdd (Val 2) 20, OpGet (Val 1),
      OpAdd (Val 3) 30, OpRemove (Val 7)]"

text \<open>
  A key that is not equal to itself is added and evicted:
  \<^verbatim>\<open>c := New(0); c.Add(math.NaN(), 1); c.RemoveOldest()\<close>.
\<close>

definition ops_nan :: "(nat, nat, (nat Key \<times> nat) list) op list" where
  "ops_nan = [OpAdd (NaN 0) 1, OpRemoveOldest]"

subsection \<open>Termination of the two loops\<close>

text \<open>
  Both loops walk from the back of the list towards its front. The number of elements in
  front of the current one decreases in every round, also when the round unlinks the
  element it has just left.
\<close>

lemma pos_less_mem: "p \<in> set xs \<Longrightarrow> pos (xs @ ys) p < length xs"
  unfolding pos_def by (induction xs) auto

lemma pos_exact: "e \<notin> set xs \<Longrightarrow> pos (xs @ e # ys) e = length xs"
  unfolding pos_def by (induction xs) auto

lemma Prev_SomeD:
  assumes "Prev l e = Some p"
  shows "\<exists>xs ys. l = xs @ p # e # ys \<and> e \<notin> set xs \<and> p \<noteq> e"
proof -
  let ?b = "takeWhile (\<lambda>x. x \<noteq> e) l"
  from assms have mem: "e \<in> set l" and ne: "?b \<noteq> []" and p: "p = last ?b"
    by (auto simp: Prev_def Let_def split: if_splits)
  from mem have l: "l = ?b @ e # tl (dropWhile (\<lambda>x. x \<noteq> e) l)"
    by (metis (mono_tags, lifting) dropWhile_eq_Nil_conv hd_dropWhile list.collapse
        takeWhile_dropWhile_id)
  have nb: "e \<notin> set ?b" by (auto dest: set_takeWhileD)
  from ne p have b: "?b = butlast ?b @ [p]" by simp
  have "p \<in> set ?b" using ne p by simp
  with nb have "p \<noteq> e" by auto
  moreover have "e \<notin> set (butlast ?b)" using nb by (auto dest: in_set_butlastD)
  moreover have "l = butlast ?b @ p # e # tl (dropWhile (\<lambda>x. x \<noteq> e) l)"
    using l b by (metis append.assoc append_Cons append_Nil)
  ultimately show ?thesis by blast
qed

lemma Prev_pos: "Prev l e = Some p \<Longrightarrow> pos l p < pos l e"
proof -
  assume "Prev l e = Some p"
  then obtain xs ys where l: "l = xs @ p # e # ys" and e: "e \<notin> set xs" and pe: "p \<noteq> e"
    using Prev_SomeD by blast
  have "pos l e = length (xs @ [p])"
    using pos_exact [of e "xs @ [p]" ys] e pe l by simp
  moreover have "pos l p < length (xs @ [p])"
    using pos_less_mem [of p "xs @ [p]" "e # ys"] l by simp
  ultimately show ?thesis by simp
qed

lemma Prev_pos_remove: "Prev l e = Some p \<Longrightarrow> pos (remove1 e l) p < pos l e"
proof -
  assume "Prev l e = Some p"
  then obtain xs ys where l: "l = xs @ p # e # ys" and e: "e \<notin> set xs" and pe: "p \<noteq> e"
    using Prev_SomeD by blast
  have "pos l e = length (xs @ [p])"
    using pos_exact [of e "xs @ [p]" ys] e pe l by simp
  moreover have "remove1 e l = (xs @ [p]) @ ys"
    using l e pe by (simp add: remove1_append)
  moreover have "pos ((xs @ [p]) @ ys) p < length (xs @ [p])"
    by (rule pos_less_mem) simp
  ultimately show ?thesis by simp
qed

lemma Ll_removeElement: "Ll (removeElement c e) = remove1 e (Ll c)"
  by (simp add: removeElement_def Remove_list_def Let_def split: option.splits)

termination Foreach_loop
  by (relation "measure (\<lambda>(fn, c, ele). pos (Ll c) ele)") (auto dest: Prev_pos)

termination RemoveForeach_loop
  by (relation "measure (\<lambda>(fn, c, ele). pos (Ll c) ele)")
     (auto simp: Ll_removeElement dest: Prev_pos [OF sym] Prev_pos_remove [OF sym])

declare Foreach_loop.simps [simp del] RemoveForeach_loop.simps [simp del]

subsection \<open>Facts about the list operations and removeElement\<close>

lemma length_MoveToFront: "length (MoveToFront l e) = length l"
  by (cases "l = []") (auto simp: MoveToFront_def length_remove1 dest: length_pos_if_in_set)

lemma Cache_removeElement:
  "Cache (removeElement c e) = map_option (\<lambda>m. delete m (key (elems c e))) (Cache c)"
  by (simp add: removeElement_def Let_def split: option.splits)

lemma unreachable_removeElement: "unreachable (removeElement c e) = unreachable c"
  by (simp add: removeElement_def Let_def split: option.splits)

lemma cache_ab_eval:
  "cache_ab n =
     \<lparr>MaxEntries = n, OnEvicted = Some log_evicted,
      Ll = (if n = 0 \<or> 2 \<le> n then [1, 0] else if n = 1 then [1] else []),
      Cache = Some (if n = 0 \<or> 2 \<le> n then [Val 1 \<mapsto> 0, Val 2 \<mapsto> 1]
                    else if n = 1 then [Val 2 \<mapsto> 1] else Map.empty),
      unreachable = [],
      elems = store0(0 := \<lparr>key = Val 1, val = 10\<rparr>, 1 := \<lparr>key = Val 2, val = 20\<rparr>),
      nxt = 2,
      world = (if n = 0 \<or> 2 \<le> n then [] else if n = 1 then [(Val 1, 10)]
               else [(Val 1, 10), (Val 2, 20)])\<rparr>"
  by (simp add: cache_ab_def cache0_def New_def Add_def Let_def RemoveOldest_def Back_def
      removeElement_def Remove_list_def log_evicted_def lookup_def delete_def)

subsection \<open>The invariant is kept\<close>

lemma cache_inv_New: "cache_inv (New n h a w)"
  by (simp add: cache_inv_def New_def)

lemma cache_inv_world: "cache_inv (c\<lparr>world := w\<rparr>) = cache_inv c"
  by (simp add: cache_inv_def split: option.splits)

lemma cache_inv_OnEvicted: "cache_inv (c\<lparr>OnEvicted := f\<rparr>) = cache_inv c"
  by (simp add: cache_inv_def split: option.splits)

lemma cache_inv_MaxEntries: "cache_inv (c\<lparr>MaxEntries := n\<rparr>) = cache_inv c"
  by (simp add: cache_inv_def split: option.splits)

lemma set_MoveToFront: "set (MoveToFront l e) = set l"
proof (cases "e \<in> set l")
  case True
  have "x \<in> set (e # remove1 e l) \<longleftrightarrow> x \<in> set l" for x
    using True in_set_remove1 [of x e l] by (cases "x = e") auto
  then show ?thesis using True by (auto simp: MoveToFront_def)
next
  case False
  then show ?thesis by (simp add: MoveToFront_def)
qed

lemma distinct_MoveToFront: "distinct l \<Longrightarrow> distinct (MoveToFront l e)"
  by (auto simp: MoveToFront_def)

lemma cache_inv_MoveToFront: "cache_inv c \<Longrightarrow> cache_inv (c\<lparr>Ll := MoveToFront (Ll c) e\<rparr>)"
  by (auto simp: cache_inv_def set_MoveToFront distinct_MoveToFront split: option.splits)

lemma elems_removeElement: "elems (removeElement c e) = elems c"
  by (simp add: removeElement_def Let_def split: option.splits)

lemma nxt_removeElement: "nxt (removeElement c e) = nxt c"
  by (simp add: removeElement_def Let_def split: option.splits)


lemma cache_inv_SomeD:
  assumes "cache_inv c" and "Cache c = Some m"
  shows "distinct (Ll c)"
    and "a \<in> set (Ll c) \<Longrightarrow> a < nxt c"
    and "a \<in> set (Ll c) \<Longrightarrow> m (key (elems c a)) = Some a"
    and "m k = Some a \<Longrightarrow> a \<in> set (Ll c)"
    and "m k = Some a \<Longrightarrow> key (elems c a) = k"
    and "a \<in> set (Ll c) \<Longrightarrow> self_equal (key (elems c a))"
  using assms unfolding cache_inv_def by simp_all

lemma lookup_inv:
  assumes "cache_inv c" and "Cache c = Some m"
  shows "lookup m k = m k"
proof (cases "m k")
  case None
  then show ?thesis by (simp add: lookup_def)
next
  case (Some a)
  from cache_inv_SomeD(4,5) [OF assms Some] cache_inv_SomeD(6) [OF assms, of a]
  have "self_equal k" by simp
  then show ?thesis by (simp add: lookup_def)
qed

lemma delete_inv:
  assumes "cache_inv c" and "Cache c = Some m" and "e \<in> set (Ll c)"
  shows "delete m (key (elems c e)) = m(key (elems c e) := None)"
  using cache_inv_SomeD(6) [OF assms] by (simp add: delete_def)

lemma cache_inv_removeElement:
  assumes "cache_inv c" and "e \<in> set (Ll c)"
  shows "cache_inv (removeElement c e)"
proof (cases "Cache c")
  case None
  then show ?thesis by (simp add: cache_inv_def Cache_removeElement)
next
  case (Some m)
  with assms have d: "distinct (Ll c)"
    and fwd: "\<And>a. a \<in> set (Ll c) \<Longrightarrow>
                a < nxt c \<and> self_equal (key (elems c a)) \<and> m (key (elems c a)) = Some a"
    and bwd: "\<And>k a. m k = Some a \<Longrightarrow> a \<in> set (Ll c) \<and> key (elems c a) = k"
    by (auto simp: cache_inv_def)
  have neq: "key (elems c a) \<noteq> key (elems c e)" if "a \<in> set (Ll c)" "a \<noteq> e" for a
    using fwd [OF that(1)] fwd [OF assms(2)] that(2) by auto
  show ?thesis
    using d fwd bwd neq Some
    by (auto simp: cache_inv_def Cache_removeElement delete_inv [OF assms(1) Some assms(2)]
        Ll_removeElement elems_removeElement nxt_removeElement)
qed

lemma cache_inv_RemoveOldest: "cache_inv c \<Longrightarrow> cache_inv (snd (RemoveOldest c))"
  by (auto simp: RemoveOldest_def Back_def Let_def cache_inv_removeElement)

lemma cache_inv_Remove: "cache_inv c \<Longrightarrow> cache_inv (Remove c k)"
proof (cases "\<exists>m ele. Cache c = Some m \<and> m k = Some ele")
  case True
  then obtain m ele where m: "Cache c = Some m" "m k = Some ele" by blast
  assume inv: "cache_inv c"
  with m have "ele \<in> set (Ll c)" by (auto simp: cache_inv_def)
  with inv m show ?thesis
    by (simp add: Remove_def lookup_inv [OF inv m(1)] cache_inv_removeElement)
next
  case False
  assume inv: "cache_inv c"
  show ?thesis
  proof (cases "Cache c")
    case None
    then show ?thesis using inv by (simp add: Remove_def)
  next
    case (Some m)
    with False have "m k = None" by (cases "m k") auto
    then show ?thesis using Some inv by (simp add: Remove_def lookup_inv [OF inv Some])
  qed
qed

lemma cache_inv_Get: "cache_inv c \<Longrightarrow> cache_inv (snd (Get c k))"
  by (auto simp: Get_def Let_def cache_inv_MoveToFront split: option.splits)

lemma Add_nil:
  "Cache c = None \<Longrightarrow>
   Add c k v = Add (c\<lparr>Cache := Some Map.empty, unreachable := [], Ll := []\<rparr>) k v"
  by (simp add: Add_def)

lemma Add_hit:
  "Cache c = Some m \<Longrightarrow> lookup m k = Some ee \<Longrightarrow>
   Add c k v = c\<lparr>Ll := MoveToFront (Ll c) ee, elems := (elems c)(ee := (elems c ee)\<lparr>val := v\<rparr>)\<rparr>"
  by (simp add: Add_def)

lemma Add_miss:
  "Cache c = Some m \<Longrightarrow> lookup m k = None \<Longrightarrow>
   Add c k v =
     (if MaxEntries c \<noteq> 0 \<and> int (length (Ll c)) + 1 > MaxEntries c
      then snd (RemoveOldest (pushed c k v)) else pushed c k v)"
  by (simp add: Add_def pushed_def Let_def)

lemma cache_inv_pushed:
  assumes "cache_inv c" and "Cache c = Some m" and "m k = None" and "self_equal k"
  shows "cache_inv (pushed c k v)"
proof -
  from assms have d: "distinct (Ll c)"
    and fwd: "\<And>a. a \<in> set (Ll c) \<Longrightarrow>
                a < nxt c \<and> self_equal (key (elems c a)) \<and> m (key (elems c a)) = Some a"
    and bwd: "\<And>k a. m k = Some a \<Longrightarrow> a \<in> set (Ll c) \<and> key (elems c a) = k"
    by (auto simp: cache_inv_def)
  have fresh: "nxt c \<notin> set (Ll c)" using fwd by auto
  have nk: "key (elems c a) \<noteq> k" if "a \<in> set (Ll c)" for a
    using fwd [OF that] assms(3) by auto
  show ?thesis
    using d fwd bwd fresh nk assms(2,4)
    by (auto simp: cache_inv_def pushed_def less_Suc_eq)
qed

lemma cache_inv_Add_hit:
  assumes "cache_inv c" and "Cache c = Some m" and "m k = Some ee"
  shows "cache_inv (c\<lparr>Ll := MoveToFront (Ll c) ee, elems := (elems c)(ee := (elems c ee)\<lparr>val := v\<rparr>)\<rparr>)"
  using assms by (auto simp: cache_inv_def set_MoveToFront distinct_MoveToFront)

lemma cache_inv_Add_some:
  assumes "cache_inv c" and "Cache c = Some m" and "self_equal k"
  shows "cache_inv (Add c k v)"
proof (cases "m k")
  case None
  then show ?thesis
    using assms
    by (simp add: Add_miss lookup_inv [OF assms(1,2)] cache_inv_pushed cache_inv_RemoveOldest)
next
  case (Some ee)
  then show ?thesis
    using assms by (simp add: Add_hit lookup_inv [OF assms(1,2)] cache_inv_Add_hit)
qed

lemma cache_inv_Add: "cache_inv c \<Longrightarrow> self_equal k \<Longrightarrow> cache_inv (Add c k v)"
proof (cases "Cache c")
  case None
  assume k: "self_equal k"
  have "cache_inv (c\<lparr>Cache := Some Map.empty, unreachable := [], Ll := []\<rparr>)"
    by (simp add: cache_inv_def)
  then show ?thesis using None k by (simp add: Add_nil cache_inv_Add_some)
next
  case (Some m)
  assume "cache_inv c" "self_equal k"
  with Some show ?thesis by (simp add: cache_inv_Add_some)
qed

lemma Foreach_loop_world: "\<exists>w. Foreach_loop fn c ele = c\<lparr>world := w\<rparr>"
proof (induction fn c ele rule: Foreach_loop.induct)
  case (1 fn c ele)
  show ?case
    using 1 [OF refl refl refl refl]
    by (subst Foreach_loop.simps) (auto simp: Let_def split: option.splits)
qed

lemma Foreach_world: "\<exists>w. Foreach c fn = c\<lparr>world := w\<rparr>"
proof -
  have same: "\<exists>w. c = c\<lparr>world := w\<rparr>" by (rule exI [of _ "world c"]) simp
  show ?thesis
    using Foreach_loop_world [of fn c] same
    by (simp add: Foreach_def split: option.splits)
qed

lemma cache_inv_Foreach: "cache_inv c \<Longrightarrow> cache_inv (Foreach c fn)"
  using Foreach_world [of c fn] by (auto simp: cache_inv_world)

lemma Prev_mem: "Prev l e = Some p \<Longrightarrow> p \<in> set l \<and> p \<noteq> e"
  by (auto dest: Prev_SomeD)

lemma RemoveForeach_loop_preserves:
  assumes world: "\<And>c w. P c \<Longrightarrow> P (c\<lparr>world := w\<rparr>)"
    and remove: "\<And>c e. P c \<Longrightarrow> e \<in> set (Ll c) \<Longrightarrow> P (removeElement c e)"
  shows "P c \<Longrightarrow> ele \<in> set (Ll c) \<Longrightarrow> P (RemoveForeach_loop fn c ele)"
proof (induction fn c ele rule: RemoveForeach_loop.induct)
  case (1 fn c ele)
  let ?r = "fn (key (elems c ele)) (val (elems c ele)) (world c)"
  let ?c1 = "c\<lparr>world := snd ?r\<rparr>"
  let ?c2 = "if snd (fst ?r) then removeElement ?c1 ele else ?c1"
  have inv1: "P ?c1" using "1.prems" by (simp add: world)
  have inv2: "P ?c2"
    using inv1 "1.prems" by (simp add: remove)
  show ?case
  proof (cases "fst (fst ?r)")
    case True
    then show ?thesis
      using inv1 by (subst RemoveForeach_loop.simps) (simp add: Let_def)
  next
    case False
    show ?thesis
    proof (cases "Prev (Ll c) ele")
      case None
      then show ?thesis
        using False inv2 by (subst RemoveForeach_loop.simps) (simp add: Let_def)
    next
      case (Some p)
      then have "p \<in> set (Ll c)" "p \<noteq> ele" by (auto dest: Prev_mem)
      then have mem: "p \<in> set (Ll ?c2)" by (simp add: Ll_removeElement)
      have "P (RemoveForeach_loop fn ?c2 p)"
        using "1.IH" [OF refl refl refl refl refl refl refl False refl Some inv2 mem] .
      then show ?thesis
        using False Some by (subst RemoveForeach_loop.simps) (simp add: Let_def)
    qed
  qed
qed

lemma cache_inv_RemoveForeach_loop:
  "cache_inv c \<Longrightarrow> ele \<in> set (Ll c) \<Longrightarrow> cache_inv (RemoveForeach_loop fn c ele)"
  by (rule RemoveForeach_loop_preserves [where P = cache_inv])
     (simp_all add: cache_inv_world cache_inv_removeElement)

lemma Cache_RemoveForeach_loop:
  "Cache c \<noteq> None \<Longrightarrow> ele \<in> set (Ll c) \<Longrightarrow> Cache (RemoveForeach_loop fn c ele) \<noteq> None"
  by (rule RemoveForeach_loop_preserves [where P = "\<lambda>c. Cache c \<noteq> None"])
     (simp_all add: Cache_removeElement del: not_None_eq)

lemma cache_inv_RemoveForeach: "cache_inv c \<Longrightarrow> cache_inv (RemoveForeach c fn)"
  by (auto simp: RemoveForeach_def Back_def cache_inv_RemoveForeach_loop split: option.splits)

lemma cache_inv_apply_op: "cache_inv c \<Longrightarrow> self_keyed x \<Longrightarrow> cache_inv (apply_op x c)"
  by (cases x)
     (simp_all add: cache_inv_Add cache_inv_Get cache_inv_Remove cache_inv_RemoveOldest
       cache_inv_Foreach cache_inv_RemoveForeach cache_inv_OnEvicted cache_inv_MaxEntries)

lemma cache_inv_run: "cache_inv c \<Longrightarrow> \<forall>x\<in>set ops. self_keyed x \<Longrightarrow> cache_inv (run ops c)"
  unfolding run_def by (induction ops arbitrary: c) (simp_all add: cache_inv_apply_op)

lemma Cache_RemoveOldest: "Cache c \<noteq> None \<Longrightarrow> Cache (snd (RemoveOldest c)) \<noteq> None"
  by (cases "Back (Ll c)") (simp_all add: RemoveOldest_def Let_def Cache_removeElement)

lemma Cache_Add_some: "Cache c = Some m \<Longrightarrow> Cache (Add c k v) \<noteq> None"
proof (cases "lookup m k")
  case None
  assume c: "Cache c = Some m"
  then have "Cache (pushed c k v) \<noteq> None" by (simp add: pushed_def Let_def)
  then show ?thesis
    using c None Cache_RemoveOldest [of "pushed c k v"] by (simp add: Add_miss)
next
  case (Some ee)
  assume "Cache c = Some m"
  then show ?thesis using Some by (simp add: Add_hit)
qed

lemma Cache_Add: "Cache (Add c k v) \<noteq> None"
proof (cases "Cache c")
  case None
  then show ?thesis
    using Cache_Add_some
      [of "c\<lparr>Cache := Some Map.empty, unreachable := [], Ll := []\<rparr>" Map.empty k v]
    by (simp add: Add_nil)
next
  case (Some m)
  then show ?thesis by (rule Cache_Add_some)
qed

lemma Cache_Get: "Cache (snd (Get c k)) = Cache c"
  by (simp add: Get_def Let_def split: option.splits)

lemma Cache_Remove: "Cache c \<noteq> None \<Longrightarrow> Cache (Remove c k) \<noteq> None"
  by (simp add: Remove_def Cache_removeElement split: option.splits)

lemma Cache_Foreach: "Cache (Foreach c fn) = Cache c"
proof -
  from Foreach_world [of c fn] obtain w where "Foreach c fn = c\<lparr>world := w\<rparr>" ..
  then show ?thesis by simp
qed

lemma Cache_RemoveForeach: "Cache c \<noteq> None \<Longrightarrow> Cache (RemoveForeach c fn) \<noteq> None"
proof (cases "Ll c = []")
  case True
  assume "Cache c \<noteq> None"
  with True show ?thesis by (simp add: RemoveForeach_def Back_def)
next
  case False
  assume c: "Cache c \<noteq> None"
  from False have "last (Ll c) \<in> set (Ll c)" by simp
  from Cache_RemoveForeach_loop [OF c this] show ?thesis
    using False c by (simp add: RemoveForeach_def Back_def)
qed

lemma Cache_apply_op: "Cache c \<noteq> None \<Longrightarrow> Cache (apply_op x c) \<noteq> None"
  by (cases x)
     (simp_all add: Cache_Add Cache_Get Cache_Remove Cache_RemoveOldest Cache_Foreach
       Cache_RemoveForeach del: not_None_eq)

lemma Cache_run: "Cache c \<noteq> None \<Longrightarrow> Cache (run ops c) \<noteq> None"
  unfolding run_def
proof (induction ops arbitrary: c)
  case Nil
  then show ?case by simp
next
  case (Cons x ops)
  from Cons.prems have "Cache (apply_op x c) \<noteq> None" by (rule Cache_apply_op)
  from Cons.IH [OF this] show ?case by simp
qed

subsection \<open>Keys that are equal to themselves leave no unreachable entry\<close>

lemma unreachable_RemoveOldest: "unreachable (snd (RemoveOldest c)) = unreachable c"
  by (cases "Back (Ll c)") (simp_all add: RemoveOldest_def Let_def unreachable_removeElement)

lemma unreachable_Add:
  assumes "unreachable c = []" and "self_equal k"
  shows "unreachable (Add c k v) = []"
proof -
  have some: "unreachable (Add c' k v) = []" if "Cache c' = Some m" "unreachable c' = []"
    for c' :: "('a, 'b, 'c) Cache" and m
  proof (cases "lookup m k")
    case None
    have "unreachable (pushed c' k v) = []" using that(2) assms(2) by (simp add: pushed_def Let_def)
    then show ?thesis
      using that(1) None by (simp add: Add_miss unreachable_RemoveOldest)
  next
    case (Some ee)
    then show ?thesis using that by (simp add: Add_hit)
  qed
  show ?thesis
  proof (cases "Cache c")
    case None
    then show ?thesis
      using some [of "c\<lparr>Cache := Some Map.empty, unreachable := [], Ll := []\<rparr>" Map.empty]
      by (simp add: Add_nil)
  next
    case (Some m)
    then show ?thesis using assms(1) by (rule some)
  qed
qed

lemma unreachable_Get: "unreachable (snd (Get c k)) = unreachable c"
  by (simp add: Get_def Let_def split: option.splits)

lemma unreachable_Remove: "unreachable (Remove c k) = unreachable c"
  by (simp add: Remove_def unreachable_removeElement split: option.splits)

lemma unreachable_Foreach: "unreachable (Foreach c fn) = unreachable c"
proof -
  from Foreach_world [of c fn] obtain w where "Foreach c fn = c\<lparr>world := w\<rparr>" ..
  then show ?thesis by simp
qed

lemma unreachable_RemoveForeach_loop:
  "unreachable c = [] \<Longrightarrow> ele \<in> set (Ll c) \<Longrightarrow> unreachable (RemoveForeach_loop fn c ele) = []"
  by (rule RemoveForeach_loop_preserves [where P = "\<lambda>c. unreachable c = []"])
     (simp_all add: unreachable_removeElement)

lemma unreachable_RemoveForeach:
  "unreachable c = [] \<Longrightarrow> unreachable (RemoveForeach c fn) = []"
  by (cases "Ll c = []")
     (simp_all add: RemoveForeach_def Back_def unreachable_RemoveForeach_loop)

lemma unreachable_apply_op:
  "unreachable c = [] \<Longrightarrow> self_keyed x \<Longrightarrow> unreachable (apply_op x c) = []"
  by (cases x)
     (simp_all add: unreachable_Add unreachable_Get unreachable_Remove unreachable_RemoveOldest
       unreachable_Foreach unreachable_RemoveForeach)

lemma unreachable_run:
  "unreachable c = [] \<Longrightarrow> \<forall>x\<in>set ops. self_keyed x \<Longrightarrow> unreachable (run ops c) = []"
  unfolding run_def by (induction ops arbitrary: c) (simp_all add: unreachable_apply_op)

lemma cache_inv_consistent:
  assumes "cache_inv c" and "Cache c = Some m" and un: "unreachable c = []"
  shows "consistent c"
proof -
  let ?kf = "\<lambda>a. key (elems c a)"
  note d = cache_inv_SomeD(1) [OF assms(1,2)]
  note fwd = cache_inv_SomeD(3) [OF assms(1,2)]
  note bwd1 = cache_inv_SomeD(4) [OF assms(1,2)]
  note bwd2 = cache_inv_SomeD(5) [OF assms(1,2)]
  have inj: "inj_on ?kf (set (Ll c))"
  proof (rule inj_onI)
    fix a b assume a: "a \<in> set (Ll c)" and b: "b \<in> set (Ll c)" and eq: "?kf a = ?kf b"
    have "m (?kf a) = Some a" using a by (rule fwd)
    moreover have "m (?kf b) = Some b" using b by (rule fwd)
    ultimately show "a = b" using eq by (metis option.inject)
  qed
  have dom: "dom m = ?kf ` set (Ll c)"
  proof
    show "dom m \<subseteq> ?kf ` set (Ll c)"
    proof
      fix k assume "k \<in> dom m"
      then obtain a where a: "m k = Some a" by auto
      from bwd1 [OF a] bwd2 [OF a] show "k \<in> ?kf ` set (Ll c)" by auto
    qed
    show "?kf ` set (Ll c) \<subseteq> dom m"
    proof
      fix k assume "k \<in> ?kf ` set (Ll c)"
      then obtain a where "a \<in> set (Ll c)" "k = ?kf a" by auto
      with fwd [of a] show "k \<in> dom m" by auto
    qed
  qed
  have dk: "distinct (map ?kf (Ll c))" using d inj by (simp add: distinct_map)
  have "card (?kf ` set (Ll c)) = length (Ll c)"
    using distinct_card [OF dk] by simp
  then have card: "card (dom m) = length (Ll c)" by (simp only: dom)
  have a: "Len c = int (card (dom m) + length (unreachable c))"
    using assms(2) card un by (simp add: Len_def)
  have c: "\<exists>!k. m k = Some (Ll c ! i) \<or> (k, Ll c ! i) \<in> set (unreachable c)"
    if "i < length (Ll c)" for i
  proof
    show "m (?kf (Ll c ! i)) = Some (Ll c ! i) \<or> (?kf (Ll c ! i), Ll c ! i) \<in> set (unreachable c)"
      using that fwd by simp
    show "k = ?kf (Ll c ! i)"
      if "m k = Some (Ll c ! i) \<or> (k, Ll c ! i) \<in> set (unreachable c)" for k
    proof -
      from that un have "m k = Some (Ll c ! i)" by simp
      from bwd2 [OF this] show ?thesis by simp
    qed
  qed
  have e: "?kf (Ll c ! i) \<noteq> ?kf (Ll c ! j)" if "i < j \<and> j < length (Ll c)" for i j
  proof -
    from that have "i < length (map ?kf (Ll c))" "j < length (map ?kf (Ll c))" "i \<noteq> j"
      by simp_all
    from nth_eq_iff_index_eq [OF dk this(1,2)] this(3) that show ?thesis by simp
  qed
  have f: "finite (dom m)" by (simp only: dom) simp
  have g: "m k = Some a" if "m k = Some a \<or> (k, a) \<in> set (unreachable c)" for k a
    using that un by simp
  show ?thesis
    unfolding consistent_def
  proof (intro exI [of _ m] conjI allI impI)
    show "Cache c = Some m" by (rule assms(2))
    show "finite (dom m)" by (rule f)
    show "Len c = int (card (dom m) + length (unreachable c))" by (rule a)
    show "key (elems c a) = k" if "m k = Some a \<or> (k, a) \<in> set (unreachable c)" for k a
      by (rule bwd2 [OF g [OF that]])
    show "\<exists>!i. i < length (Ll c) \<and> Ll c ! i = a"
      if "m k = Some a \<or> (k, a) \<in> set (unreachable c)" for k a
      using bwd1 [OF g [OF that]] d by (simp add: distinct_Ex1)
    show "\<exists>!k. m k = Some (Ll c ! i) \<or> (k, Ll c ! i) \<in> set (unreachable c)"
      if "i < length (Ll c)" for i by (rule c [OF that])
    show "\<not> key_eq (?kf (Ll c ! i)) (?kf (Ll c ! j))"
      if "i < j \<and> j < length (Ll c)" for i j
      using e [OF that] by (simp add: key_eq_def)
  qed
qed

subsection \<open>The operations on well-formed caches\<close>











subsection \<open>The loops follow the sequence from its back\<close>














subsection \<open>The example caches are well formed\<close>

lemma cache_abc_eval:
  "cache_abc =
     \<lparr>MaxEntries = 0, OnEvicted = Some log_evicted, Ll = [2, 1, 0],
      Cache = Some [Val 1 \<mapsto> 0, Val 2 \<mapsto> 1, Val 3 \<mapsto> 2],
      unreachable = [],
      elems = store0(0 := \<lparr>key = Val 1, val = 10\<rparr>, 1 := \<lparr>key = Val 2, val = 20\<rparr>,
                     2 := \<lparr>key = Val 3, val = 30\<rparr>),
      nxt = 3, world = []\<rparr>"
  by (simp add: cache_abc_def cache_ab_eval Add_def Let_def lookup_def)




section \<open>Index and sequence agree\<close>

text \<open>
  As long as every key that is added is equal to itself, index and sequence agree in every
  state that a sequence of operations reaches from \<^verbatim>\<open>New\<close>: \<^verbatim>\<open>Len()\<close> is the number
  of entries of the index, every entry resolves to one node of the recency sequence, which
  holds the key of the entry and is linked once, every node of the sequence has exactly
  one index entry, and no two nodes hold the same key.
\<close>

theorem self_keyed_consistent:
  assumes "\<forall>x\<in>set ops. self_keyed x"
  shows "consistent (run ops (New n h a w))"
proof -
  have inv: "cache_inv (run ops (New n h a w))"
    using assms by (simp add: cache_inv_run cache_inv_New)
  have un: "unreachable (run ops (New n h a w)) = []"
    using assms by (simp add: unreachable_run New_def)
  have "Cache (run ops (New n h a w)) \<noteq> None"
    by (rule Cache_run) (simp add: New_def)
  then obtain m where "Cache (run ops (New n h a w)) = Some m" by blast
  with inv show ?thesis using un by (rule cache_inv_consistent)
qed

theorem self_keyed_consistent_example:
  "consistent (run ops_example (New 2 store0 0 [])) \<and>
   Ll (run ops_example (New 2 store0 0 [])) = [2, 0] \<and>
   world (run ops_example (New 2 store0 0 [])) = [(Val 2, 20)]"
  using self_keyed_consistent [of ops_example 2 store0 0 "[]"]
  by (simp add: ops_example_def store0_def run_def New_def Add_def Get_def Remove_def Let_def
      RemoveOldest_def Back_def MoveToFront_def removeElement_def Remove_list_def
      log_evicted_def lookup_def delete_def)

text \<open>
  C1. Index and sequence are to agree after every sequence of operations, and
  \<^verbatim>\<open>Key\<close> admits keys that are not equal to themselves. After
  \<^verbatim>\<open>New(0); Add(NaN, 1); RemoveOldest()\<close> the sequence is empty and \<^verbatim>\<open>Len()\<close>
  is 0, but the entry that \<^verbatim>\<open>Add\<close> stored is still in the map, since the
  \<^verbatim>\<open>delete\<close> of \<^verbatim>\<open>removeElement\<close> does not find it: the index has one entry, and
  its node is not in the sequence.
\<close>

theorem NaN_key_breaks_consistency:
  "Len (run ops_nan (New 0 store0 0 [])) = 0 \<and>
   nodes (run ops_nan (New 0 store0 0 [])) = [] \<and>
   indexed (run ops_nan (New 0 store0 0 [])) = Map.empty \<and>
   stranded (run ops_nan (New 0 store0 0 [])) = [(NaN 0, 0)] \<and>
   \<not> consistent (run ops_nan (New 0 store0 0 []))"
proof -
  have eq: "run ops_nan (New 0 store0 0 []) =
      \<lparr>MaxEntries = 0, OnEvicted = None, Ll = [], Cache = Some Map.empty,
       unreachable = [(NaN 0, 0)], elems = store0(0 := \<lparr>key = NaN 0, val = 1\<rparr>),
       nxt = 1, world = []\<rparr>"
    by (simp add: ops_nan_def run_def New_def Add_def Let_def RemoveOldest_def Back_def
        removeElement_def Remove_list_def lookup_def delete_def)
  show ?thesis
    unfolding eq by (simp add: Len_def nodes_def indexed_def stranded_def consistent_def)
qed

theorem NaN_key_breaks_consistency_witness:
  "Len (run ops_nan (New 0 store0 0 [])) = 0 \<and>
   length (stranded (run ops_nan (New 0 store0 0 []))) = 1 \<and>
   snd (hd (stranded (run ops_nan (New 0 store0 0 []))))
     \<notin> set (nodes (run ops_nan (New 0 store0 0 [])))"
  using NaN_key_breaks_consistency by simp

section \<open>The size bound\<close>

text \<open>
  C2. A cache with capacity \<open>MaxEntries = N > 0\<close> that holds at most N entries holds at
  most N entries after \<^verbatim>\<open>Add\<close>, whatever the key and the value are.
\<close>

theorem Add_keeps_capacity:
  assumes "MaxEntries c = N" and "0 < N" and "Len c \<le> N"
  shows "Len (Add c k v) \<le> N"
  using assms
  by (auto simp: Add_def Len_def Let_def RemoveOldest_def Back_def Ll_removeElement
      Cache_removeElement length_MoveToFront length_remove1 split: option.splits if_splits)

theorem Add_keeps_capacity_witness:
  "MaxEntries (cache_ab 2) = 2 \<and> Len (cache_ab 2) = 2 \<and>
   Len (Add (cache_ab 2) (Val 3) 30) \<le> 2"
  using Add_keeps_capacity [of "cache_ab 2" 2 "Val 3" 30]
  by (simp add: cache_ab_eval Len_def)

section \<open>Add\<close>








section \<open>Get\<close>



section \<open>RemoveOldest\<close>



section \<open>Foreach\<close>



section \<open>RemoveForeach\<close>

text \<open>
  C8. When the visitor answers stop for the node the loop is at, whatever its remove answer
  is, the loop returns at once: only the world has changed, to the one the visitor left;
  the node is still linked and indexed and the size is the same. When the node is the
  oldest one, this is the result of \<^verbatim>\<open>RemoveForeach\<close>.
\<close>

theorem stop_before_remove:
  assumes "fn (key (elems c ele)) (val (elems c ele)) (world c) = ((True, remove), w)"
  shows "RemoveForeach_loop fn c ele = c\<lparr>world := w\<rparr> \<and>
         (nodes c \<noteq> [] \<and> ele = last (nodes c) \<longrightarrow> RemoveForeach c fn = c\<lparr>world := w\<rparr>) \<and>
         nodes (c\<lparr>world := w\<rparr>) = nodes c \<and> indexed (c\<lparr>world := w\<rparr>) = indexed c \<and>
         Len (c\<lparr>world := w\<rparr>) = Len c"
proof -
  have loop: "RemoveForeach_loop fn c ele = c\<lparr>world := w\<rparr>"
    using assms by (subst RemoveForeach_loop.simps) (simp add: Let_def)
  have "RemoveForeach c fn = c\<lparr>world := w\<rparr>" if "nodes c \<noteq> []" "ele = last (nodes c)"
  proof -
    from that(1) have "Cache c \<noteq> None" "Ll c \<noteq> []" "nodes c = Ll c"
      by (auto simp: nodes_def split: if_splits)
    then show ?thesis using loop that(2) by (auto simp: RemoveForeach_def Back_def)
  qed
  then show ?thesis using loop by (simp add: nodes_def indexed_def Len_def)
qed

theorem stop_before_remove_witness:
  "RemoveForeach cache_abc stop_and_remove = cache_abc \<and> Len cache_abc = 3"
  using stop_before_remove [of stop_and_remove cache_abc 0 True "[]"]
  by (simp add: cache_abc_eval nodes_def stop_and_remove_def Len_def)






end
